theory Spec2Isabelle
  imports Main
begin

section \<open>LineReader: the chunked line-assembly engine\<close>

text \<open>
  The engine of \<^verbatim>\<open>LineReader\<close> (the version with \<^verbatim>\<open>options\<close>, \<^verbatim>\<open>abort\<close> and the
  \<^verbatim>\<open>end\<close>/\<^verbatim>\<open>error\<close> events) reads a file through the host's \<^verbatim>\<open>FileReader\<close> in slices of
  \<^verbatim>\<open>chunkSize\<close> bytes and hands the text to the consumer line by line.

  Conventions of the model:
  \<^item> a file is its bytes, a \<open>string\<close>: \<^verbatim>\<open>file.size\<close> is \<open>length\<close> and
    \<^verbatim>\<open>file.slice(a, b)\<close> is \<open>take (b - a) (drop a f)\<close>;
  \<^item> text is written as its bytes too, and the text that the host decodes from a slice
    is the slice itself. This is what \<^verbatim>\<open>readAsText\<close> gives for single-byte (ASCII) files,
    where every byte is one character. A character of several bytes that a slice
    boundary cuts is decoded by the host to replacement characters, which the model does
    not show: the theorems that say which lines a file read in several chunks delivers
    are stated for \<open>ascii\<close> content;
  \<^item> \<^verbatim>\<open>undefined\<close> and \<^verbatim>\<open>null\<close> are \<open>None\<close>; a thrown exception is \<open>Inl\<close>;
  \<^item> the \<^verbatim>\<open>FileReader\<close> holds at most one read: \<open>loading\<close> is the text of the slice
    whose completion is outstanding;
  \<^item> a callback invocation is an entry of \<open>trace\<close>; the continuation handed to the
    \<^verbatim>\<open>line\<close> callback is kept in \<open>nextFn\<close> until the consumer invokes it.
\<close>

subsection \<open>Characters and the two regular expressions\<close>

abbreviation CR :: char where "CR \<equiv> CHR 0x0D"
abbreviation LF :: char where "LF \<equiv> CHR 0x0A"

definition isTerm :: "char \<Rightarrow> bool" where
  "isTerm c = (c = CR \<or> c = LF)"

text \<open>\<^verbatim>\<open>/\r|\n/.test(s)\<close>\<close>

definition hasTerm :: "string \<Rightarrow> bool" where
  "hasTerm s = list_ex isTerm s"

text \<open>
  All matches of \<^verbatim>\<open>/[^\r\n]+/g\<close>, left to right: the maximal non-empty runs of
  characters that are neither CR nor LF. \<open>cur\<close> is the run being read.
\<close>

fun runs :: "string \<Rightarrow> string \<Rightarrow> string list" where
  "runs cur [] = (if cur = [] then [] else [cur])"
| "runs cur (c # cs) =
     (if isTerm c then (if cur = [] then runs [] cs else cur # runs [] cs)
      else runs (cur @ [c]) cs)"

text \<open>\<^verbatim>\<open>s.match(/[^\r\n]+/g)\<close>: \<^verbatim>\<open>null\<close> when nothing matches.\<close>

definition matchLines :: "string \<Rightarrow> string list option" where
  "matchLines s = (case runs [] s of [] \<Rightarrow> None | l # ls \<Rightarrow> Some (l # ls))"

text \<open>
  The bytes of \<^verbatim>\<open>file.slice(a, b)\<close>, which are also the text read from it when they are
  single-byte characters.
\<close>

definition slice :: "string \<Rightarrow> nat \<Rightarrow> nat \<Rightarrow> string" where
  "slice f a b = take (b - a) (drop a f)"

subsection \<open>State\<close>

datatype exn = TypeError | InvalidStateError

datatype cont = StepFn | EndFn

datatype event = Line string | End | Error string

record state =
  file' :: "string option"
  fileLength :: nat
  readPos :: nat
  chunkSize :: nat
  chunk :: string
  lines :: "string list option"
  canRead :: bool
  events :: "string set"
  loading :: "string option"
  nextFn :: "cont option"
  trace :: "event list"

text \<open>
  The constructor. \<^verbatim>\<open>options.chunkSize\<close> is used when it is truthy, so an absent or
  zero value gives 1024. The constructor leaves \<^verbatim>\<open>file\<close>, \<^verbatim>\<open>fileLength\<close>, \<^verbatim>\<open>readPos\<close>,
  \<^verbatim>\<open>chunk\<close> and \<^verbatim>\<open>lines\<close> undefined; none of them is read before \<open>read\<close> with a
  file has set all five, and \<open>read\<close> without a file fails on the undefined \<^verbatim>\<open>file\<close>
  first, so the values given to the four others here are never observed.
\<close>

definition LineReader :: "nat option \<Rightarrow> state" where
  "LineReader options =
     \<lparr> file' = None, fileLength = 0, readPos = 0,
       chunkSize = (case options of None \<Rightarrow> 1024 | Some c \<Rightarrow> if c \<noteq> 0 then c else 1024),
       chunk = [], lines = Some [], canRead = True, events = {},
       loading = None, nextFn = None, trace = [] \<rparr>"

subsection \<open>Operations\<close>

text \<open>\<^verbatim>\<open>LineReader.prototype.on\<close>\<close>

definition on :: "string \<Rightarrow> state \<Rightarrow> state" where
  "on eventName s = s\<lparr>events := insert eventName (events s)\<rparr>"

text \<open>\<^verbatim>\<open>LineReader.prototype._hasMoreData\<close>\<close>

definition hasMoreData :: "state \<Rightarrow> bool" where
  "hasMoreData s = (readPos s \<le> fileLength s)"

text \<open>
  \<^verbatim>\<open>LineReader.prototype._emit\<close>: the callback runs only when one is bound. The \<^verbatim>\<open>line\<close>
  callback receives the continuation as well.
\<close>

definition emitLine :: "string \<Rightarrow> cont \<Rightarrow> state \<Rightarrow> state" where
  "emitLine l k s =
     (if ''line'' \<in> events s then s\<lparr>nextFn := Some k, trace := trace s @ [Line l]\<rparr> else s)"

definition emitEnd :: "state \<Rightarrow> state" where
  "emitEnd s = (if ''end'' \<in> events s then s\<lparr>trace := trace s @ [End]\<rparr> else s)"

definition emitError :: "string \<Rightarrow> state \<Rightarrow> state" where
  "emitError e s = (if ''error'' \<in> events s then s\<lparr>trace := trace s @ [Error e]\<rparr> else s)"

text \<open>
  \<^verbatim>\<open>FileReader.readAsText\<close>: starts the read; the File API throws when a read is
  already outstanding.
\<close>

definition readAsText :: "string \<Rightarrow> state \<Rightarrow> exn + state" where
  "readAsText blob s =
     (case loading s of Some b \<Rightarrow> Inl InvalidStateError | None \<Rightarrow> Inr (s\<lparr>loading := Some blob\<rparr>))"

text \<open>\<^verbatim>\<open>LineReader.prototype.read\<close>\<close>

definition read :: "string option \<Rightarrow> state \<Rightarrow> exn + state" where
  "read f s =
     (let s1 = (case f of
                  Some t \<Rightarrow> s\<lparr>file' := Some t, fileLength := length t, readPos := 0,
                              chunk := [], lines := Some []\<rparr>
                | None \<Rightarrow> s)
      in case file' s1 of
           None \<Rightarrow> Inl TypeError
         | Some t \<Rightarrow>
             readAsText (slice t (readPos s1) (readPos s1 + chunkSize s1))
               (s1\<lparr>readPos := readPos s1 + chunkSize s1\<rparr>))"

text \<open>\<^verbatim>\<open>LineReader.prototype.abort\<close>\<close>

definition abort :: "state \<Rightarrow> state" where
  "abort s = s\<lparr>canRead := False\<rparr>"

text \<open>
  \<^verbatim>\<open>LineReader.prototype._step\<close>. \<^verbatim>\<open>internals.lines.length\<close> throws on \<^verbatim>\<open>null\<close>. The
  head is shifted off the queue before \<^verbatim>\<open>_emit\<close> looks for a callback.
\<close>

definition step :: "state \<Rightarrow> exn + state" where
  "step s =
     (case lines s of
        None \<Rightarrow> Inl TypeError
      | Some ls \<Rightarrow>
          (case ls of
             [] \<Rightarrow> if hasMoreData s then read None s else Inr (emitEnd s)
           | l # rest \<Rightarrow>
               if canRead s then Inr (emitLine l StepFn (s\<lparr>lines := Some rest\<rparr>))
               else Inr (emitEnd s)))"

text \<open>
  \<^verbatim>\<open>internals.reader.onload\<close>, with \<open>result\<close> the decoded slice. \<^verbatim>\<open>lines.pop()\<close> throws
  on \<^verbatim>\<open>null\<close>; on an array it removes and returns the last element. On an empty array
  it returns \<^verbatim>\<open>undefined\<close>, which the next \<^verbatim>\<open>chunk += result\<close> turns into the text
  \<^verbatim>\<open>undefined\<close> before \<^verbatim>\<open>chunk\<close> is read again (\<open>matchLines\<close> never returns an empty
  array, so this branch is not reached).
\<close>

definition onload :: "string \<Rightarrow> state \<Rightarrow> exn + state" where
  "onload result s =
     (let s1 = s\<lparr>chunk := chunk s @ result, loading := None\<rparr> in
      if hasTerm (chunk s1) then
        (let s2 = s1\<lparr>lines := matchLines (chunk s1)\<rparr> in
         if hasMoreData s2 then
           (if last (chunk s2) = LF then step (s2\<lparr>chunk := []\<rparr>)
            else (case lines s2 of
                    None \<Rightarrow> Inl TypeError
                  | Some ls \<Rightarrow>
                      (case ls of
                         [] \<Rightarrow> step (s2\<lparr>chunk := ''undefined''\<rparr>)
                       | l # rest \<Rightarrow> step (s2\<lparr>chunk := last ls, lines := Some (butlast ls)\<rparr>))))
         else step s2)
      else if hasMoreData s1 then read None s1
      else if length (chunk s1) \<noteq> 0 then Inr (emitLine (chunk s1) EndFn s1)
      else Inr (emitEnd s1))"

text \<open>\<^verbatim>\<open>internals.reader.onerror\<close>, with \<open>e\<close> the reader's \<^verbatim>\<open>error\<close>.\<close>

definition onerror :: "string \<Rightarrow> state \<Rightarrow> state" where
  "onerror e s = emitError e (s\<lparr>loading := None\<rparr>)"

subsection \<open>The environment: consumer and chunk source\<close>

text \<open>
  The consumer invokes the continuation it was handed: \<^verbatim>\<open>_step.bind(this)\<close> or
  \<^verbatim>\<open>_emit.bind(this, 'end')\<close>.
\<close>

definition ack :: "state \<Rightarrow> exn + state" where
  "ack s =
     (case nextFn s of
        None \<Rightarrow> Inr s
      | Some StepFn \<Rightarrow> step (s\<lparr>nextFn := None\<rparr>)
      | Some EndFn \<Rightarrow> Inr (emitEnd (s\<lparr>nextFn := None\<rparr>)))"

text \<open>One thing the consumer or the chunk source does to the engine.\<close>

datatype action =
  Read "string option" | Abort | On string | Ack | Load | Fail string

fun exec :: "action \<Rightarrow> state \<Rightarrow> exn + state" where
  "exec (Read f) s = read f s"
| "exec Abort s = Inr (abort s)"
| "exec (On n) s = Inr (on n s)"
| "exec Ack s = ack s"
| "exec Load s = (case loading s of None \<Rightarrow> Inr s | Some b \<Rightarrow> onload b s)"
| "exec (Fail e) s = (case loading s of None \<Rightarrow> Inr s | Some b \<Rightarrow> Inr (onerror e s))"

fun execs :: "action list \<Rightarrow> state \<Rightarrow> exn + state" where
  "execs [] s = Inr s"
| "execs (a # as) s = (case exec a s of Inl e \<Rightarrow> Inl e | Inr s' \<Rightarrow> execs as s')"

text \<open>
  A session with a consumer that acknowledges every line and a chunk source that
  completes every read: as long as a continuation is held it is invoked, and as long as
  a read is outstanding it completes. \<open>None\<close> is a session that never comes to rest.
\<close>

partial_function (option) run :: "state \<Rightarrow> (exn + state) option" where
  "run s =
     (case nextFn s of
        Some k \<Rightarrow> (case ack s of Inl e \<Rightarrow> Some (Inl e) | Inr s' \<Rightarrow> run s')
      | None \<Rightarrow>
          (case loading s of
             Some b \<Rightarrow> (case onload b s of Inl e \<Rightarrow> Some (Inl e) | Inr s' \<Rightarrow> run s')
           | None \<Rightarrow> Some (Inr s)))"

declare run.simps [code]

text \<open>What is left to run after an operation: nothing after an exception.\<close>

definition resume :: "exn + state \<Rightarrow> (exn + state) option" where
  "resume r = (case r of Inl e \<Rightarrow> Some (Inl e) | Inr s \<Rightarrow> run s)"

text \<open>A fresh engine with the three callbacks bound.\<close>

definition engine :: "nat option \<Rightarrow> state" where
  "engine options = on ''error'' (on ''end'' (on ''line'' (LineReader options)))"

text \<open>
  The events of a whole session that \<open>read\<close> with file \<open>f\<close> starts on engine \<open>s\<close>, or
  the exception that stopped it; \<open>session\<close> is the session of a fresh engine.
\<close>

definition sessionFrom :: "state \<Rightarrow> string \<Rightarrow> (exn + event list) option" where
  "sessionFrom s f = map_option (map_sum id trace) (resume (read (Some f) s))"

definition session :: "nat option \<Rightarrow> string \<Rightarrow> (exn + event list) option" where
  "session options f = sessionFrom (engine options) f"

text \<open>
  Text whose lines are non-empty and end in LF or in CR LF (the last one may be
  unterminated): no LF and no CR at the start of a line, and every CR is followed at
  once by LF. \<open>b\<close> tells whether the text starts at a line start.
\<close>

fun tidy :: "bool \<Rightarrow> string \<Rightarrow> bool" where
  "tidy b [] = True"
| "tidy b (c # cs) =
     (if c = LF then \<not> b \<and> tidy True cs
      else if c = CR then \<not> b \<and> (case cs of [] \<Rightarrow> False | d # ds \<Rightarrow> d = LF) \<and> tidy False cs
      else tidy False cs)"

text \<open>Single-byte text: every byte is below 128, so that it is one character of its own.\<close>

definition ascii :: "string \<Rightarrow> bool" where
  "ascii t = list_all (\<lambda>c. of_char c < (128 :: nat)) t"

text \<open>
  The final unterminated fragment of a text: what follows its last CR or LF (the whole
  text when it has none).
\<close>

definition fragment :: "string \<Rightarrow> string" where
  "fragment t = rev (takeWhile (\<lambda>c. \<not> isTerm c) (rev t))"

text \<open>The text of a file made of the lines \<open>ls\<close>, each followed by LF.\<close>

definition unlines :: "string list \<Rightarrow> string" where
  "unlines ls = concat (map (\<lambda>l. l @ [LF]) ls)"

text \<open>The same state with the events \<open>t\<close> already logged before its own.\<close>

definition logged :: "event list \<Rightarrow> state \<Rightarrow> state" where
  "logged t s = s\<lparr>trace := t @ trace s\<rparr>"

subsection \<open>Example files and states\<close>

text \<open>The file \<open>a\<close>, LF, \<open>bb\<close>, LF, \<open>ccc\<close>.\<close>

definition threeLines :: string where
  "threeLines = ''a'' @ [LF] @ ''bb'' @ [LF] @ ''ccc''"

text \<open>
  The engine with \<^verbatim>\<open>chunkSize = 3\<close> on \<open>threeLines\<close>, after the first chunk and the
  acknowledgment of the line \<open>a\<close>: the second read is outstanding.
\<close>

definition secondRead :: state where
  "secondRead =
     \<lparr> file' = Some threeLines, fileLength = 8, readPos = 6, chunkSize = 3, chunk = ''b'',
       lines = Some [], canRead = True, events = {''error'', ''end'', ''line''},
       loading = Some (''b'' @ [LF] @ ''c''), nextFn = None, trace = [Line ''a''] \<rparr>"

text \<open>
  The engine with \<^verbatim>\<open>chunkSize = 2\<close> on the file \<open>x\<close>, LF, right after \<^verbatim>\<open>read(file)\<close>:
  the read of the only chunk is outstanding and \<^verbatim>\<open>readPos\<close> is the length of the file.
\<close>

definition lastChunk :: state where
  "lastChunk =
     \<lparr> file' = Some (''x'' @ [LF]), fileLength = 2, readPos = 2, chunkSize = 2, chunk = [],
       lines = Some [], canRead = True, events = {''error'', ''end'', ''line''},
       loading = Some (''x'' @ [LF]), nextFn = None, trace = [] \<rparr>"

text \<open>
  The engine with \<^verbatim>\<open>chunkSize = 4\<close> on the file \<open>a\<close>, LF, \<open>b\<close>, LF after its only chunk:
  \<^verbatim>\<open>readPos\<close> is the length of the file, the pending text is empty, the line \<open>a\<close> has
  been handed over and the line \<open>b\<close> is queued.
\<close>

definition landed :: state where
  "landed =
     \<lparr> file' = Some (''a'' @ [LF] @ ''b'' @ [LF]), fileLength = 4, readPos = 4, chunkSize = 4,
       chunk = [], lines = Some [''b''], canRead = True,
       events = {''error'', ''end'', ''line''}, loading = None, nextFn = Some StepFn,
       trace = [Line ''a''] \<rparr>"

text \<open>The same engine after the whole session.\<close>

definition finished :: state where
  "finished =
     \<lparr> file' = Some (''x'' @ [LF]), fileLength = 2, readPos = 4, chunkSize = 2, chunk = [],
       lines = Some [], canRead = True, events = {''error'', ''end'', ''line''},
       loading = None, nextFn = None, trace = [Line ''x'', End] \<rparr>"

section \<open>Properties of the splitting\<close>

lemma hasTerm_append: "hasTerm (a @ b) = (hasTerm a \<or> hasTerm b)"
  by (simp add: hasTerm_def)

lemma hasTerm_Cons: "hasTerm (c # cs) = (isTerm c \<or> hasTerm cs)"
  by (simp add: hasTerm_def)

lemma hasTerm_Nil: "\<not> hasTerm []"
  by (simp add: hasTerm_def)

lemma runs_plain: "\<not> hasTerm a \<Longrightarrow> runs cur (a @ b) = runs (cur @ a) b"
  by (induction a arbitrary: cur) (simp_all add: hasTerm_Cons)

lemma runs_cur: "runs cur s = runs [] (cur @ s)" if "\<not> hasTerm cur"
  using runs_plain [OF that, of "[]" s] by simp

lemma runs_plain_Nil: "\<not> hasTerm a \<Longrightarrow> runs cur a = (if cur @ a = [] then [] else [cur @ a])"
  using runs_plain [of a cur "[]"] by simp

lemma runs_nonempty: "cur \<noteq> [] \<Longrightarrow> runs cur s \<noteq> []"
  by (induction s arbitrary: cur) simp_all

lemma runs_after_term:
  "isTerm t \<Longrightarrow> runs cur (a @ t # b) = runs cur (a @ [t]) @ runs [] b"
  by (induction a arbitrary: cur) simp_all

lemma runs_ends_term:
  assumes "a \<noteq> []" "isTerm (last a)"
  shows "runs cur (a @ b) = runs cur a @ runs [] b"
proof -
  from assms(1) have "a = butlast a @ [last a]" by simp
  then obtain a' where a: "a = a' @ [last a]" ..
  have "runs cur (a' @ last a # b) = runs cur (a' @ [last a]) @ runs [] b"
    using assms(2) by (rule runs_after_term)
  with a show ?thesis by (metis append.assoc append_Cons append_Nil)
qed

lemma runs_pop:
  "a \<noteq> [] \<Longrightarrow> \<not> isTerm (last a) \<Longrightarrow> \<not> hasTerm cur \<Longrightarrow>
     runs cur a \<noteq> [] \<and>
     runs cur (a @ b) = butlast (runs cur a) @ runs [] (last (runs cur a) @ b)"
proof (induction a arbitrary: cur)
  case Nil
  then show ?case by simp
next
  case (Cons c cs)
  show ?case
  proof (cases "cs = []")
    case True
    with Cons.prems have nt: "\<not> isTerm c" by simp
    then have "\<not> hasTerm (cur @ [c])"
      using Cons.prems(3) by (simp add: hasTerm_append hasTerm_Cons hasTerm_Nil)
    then have "runs (cur @ [c]) b = runs [] ((cur @ [c]) @ b)" by (rule runs_cur)
    with True nt show ?thesis by simp
  next
    case False
    with Cons.prems have l: "\<not> isTerm (last cs)" by simp
    show ?thesis
    proof (cases "isTerm c")
      case True
      from Cons.IH [OF False l, of "[]"] have
        ih: "runs [] cs \<noteq> []" "runs [] (cs @ b) = butlast (runs [] cs) @ runs [] (last (runs [] cs) @ b)"
        by (simp_all add: hasTerm_Nil)
      with True show ?thesis by simp
    next
      case nt: False
      then have "\<not> hasTerm (cur @ [c])"
        using Cons.prems(3) by (simp add: hasTerm_append hasTerm_Cons hasTerm_Nil)
      from Cons.IH [OF False l this] nt show ?thesis by simp
    qed
  qed
qed

lemma runs_members: "\<not> hasTerm cur \<Longrightarrow> l \<in> set (runs cur s) \<Longrightarrow> l \<noteq> [] \<and> \<not> hasTerm l"
proof (induction s arbitrary: cur)
  case Nil
  then show ?case by (auto split: if_splits)
next
  case (Cons c cs)
  show ?case
  proof (cases "isTerm c")
    case True
    with Cons.prems(2) have "l = cur \<and> cur \<noteq> [] \<or> l \<in> set (runs [] cs)"
      by (auto split: if_splits)
    then show ?thesis
      using Cons.IH [of "[]"] Cons.prems(1) by (auto simp: hasTerm_Nil)
  next
    case False
    then have "\<not> hasTerm (cur @ [c])"
      using Cons.prems(1) by (simp add: hasTerm_append hasTerm_Cons hasTerm_Nil)
    from Cons.IH [OF this] Cons.prems(2) False show ?thesis by simp
  qed
qed

lemma runs_unlines:
  "\<forall>l \<in> set ls. l \<noteq> [] \<and> \<not> hasTerm l \<Longrightarrow> \<not> hasTerm frag \<Longrightarrow>
     runs [] (unlines ls @ frag) = ls @ (if frag = [] then [] else [frag])"
proof (induction ls)
  case Nil
  then show ?case by (simp add: unlines_def runs_plain_Nil)
next
  case (Cons l ls)
  then have l: "l \<noteq> []" "\<not> hasTerm l" by simp_all
  have "runs [] (l @ LF # (unlines ls @ frag)) = runs l (LF # (unlines ls @ frag))"
    using runs_plain [OF l(2), of "[]"] by simp
  also have "\<dots> = l # runs [] (unlines ls @ frag)"
    using l(1) by (simp add: isTerm_def)
  finally show ?case using Cons by (simp add: unlines_def)
qed

lemma last_plain: "a \<noteq> [] \<Longrightarrow> \<not> hasTerm a \<Longrightarrow> \<not> isTerm (last a)"
  by (induction a) (auto simp: hasTerm_Cons)

lemma tidy_plain: "\<not> hasTerm a \<Longrightarrow> tidy b a"
  by (induction a arbitrary: b) (auto simp: hasTerm_Cons isTerm_def)

lemma tidy_plain_append: "\<not> hasTerm p \<Longrightarrow> p \<noteq> [] \<Longrightarrow> tidy b (p @ c) = tidy False c"
proof (induction p arbitrary: b)
  case Nil
  then show ?case by simp
next
  case (Cons x p)
  then have x: "x \<noteq> LF" "x \<noteq> CR" and p: "\<not> hasTerm p"
    by (auto simp: hasTerm_Cons isTerm_def)
  show ?case
  proof (cases "p = []")
    case True
    with x show ?thesis by simp
  next
    case False
    from Cons.IH [OF p False, of False] x show ?thesis by simp
  qed
qed

lemma tidy_after_LF: "tidy b (a @ c) \<Longrightarrow> a \<noteq> [] \<Longrightarrow> last a = LF \<Longrightarrow> tidy True c"
proof (induction a arbitrary: b)
  case Nil
  then show ?case by simp
next
  case (Cons x a)
  show ?case
  proof (cases "a = []")
    case True
    with Cons.prems show ?thesis by simp
  next
    case False
    with Cons.prems have "last a = LF" by simp
    moreover from Cons.prems(1) obtain b' where "tidy b' (a @ c)"
      by (auto split: if_splits)
    ultimately show ?thesis using Cons.IH False by blast
  qed
qed

lemma tidy_after_plain:
  "tidy b (a @ c) \<Longrightarrow> a \<noteq> [] \<Longrightarrow> \<not> isTerm (last a) \<Longrightarrow> tidy False c"
proof (induction a arbitrary: b)
  case Nil
  then show ?case by simp
next
  case (Cons x a)
  show ?case
  proof (cases "a = []")
    case True
    with Cons.prems show ?thesis by (simp add: isTerm_def)
  next
    case False
    with Cons.prems have "\<not> isTerm (last a)" by simp
    moreover from Cons.prems(1) obtain b' where "tidy b' (a @ c)"
      by (auto split: if_splits)
    ultimately show ?thesis using Cons.IH False by blast
  qed
qed

lemma tidy_after_CR:
  "tidy b (a @ c) \<Longrightarrow> a \<noteq> [] \<Longrightarrow> last a = CR \<Longrightarrow> (\<exists>x. c = LF # x) \<and> tidy False c"
proof (induction a arbitrary: b)
  case Nil
  then show ?case by simp
next
  case (Cons x a)
  show ?case
  proof (cases "a = []")
    case True
    with Cons.prems show ?thesis by (cases c) simp_all
  next
    case False
    with Cons.prems have "last a = CR" by simp
    moreover from Cons.prems(1) obtain b' where "tidy b' (a @ c)"
      by (auto split: if_splits)
    ultimately show ?thesis using Cons.IH False by blast
  qed
qed

lemma tidy_unlines:
  "\<forall>l \<in> set ls. l \<noteq> [] \<and> \<not> hasTerm l \<Longrightarrow> \<not> hasTerm frag \<Longrightarrow> tidy True (unlines ls @ frag)"
proof (induction ls)
  case Nil
  then show ?case by (simp add: unlines_def tidy_plain)
next
  case (Cons l ls)
  then have l: "l \<noteq> []" "\<not> hasTerm l" and ih: "tidy True (unlines ls @ frag)"
    by (simp_all)
  have "tidy True (l @ LF # (unlines ls @ frag))"
    using tidy_plain_append [OF l(2,1), of True "LF # (unlines ls @ frag)"] ih by simp
  then show ?case by (simp add: unlines_def)
qed

lemma runs_pop_term:
  assumes "a \<noteq> []" "isTerm (last a)" "runs [] a \<noteq> []" "isTerm t"
  shows "runs [] (a @ t # x) = butlast (runs [] a) @ runs [] (last (runs [] a) @ t # x)"
proof -
  define L where "L = runs [] a"
  have "last L \<in> set L" using assms(3) by (simp add: L_def)
  then have l: "last L \<noteq> [] \<and> \<not> hasTerm (last L)"
    unfolding L_def by (intro runs_members [of "[]" _ a]) (simp_all add: hasTerm_Nil)
  have "runs [] (a @ t # x) = L @ runs [] (t # x)"
    unfolding L_def using assms(1,2) by (rule runs_ends_term)
  also have "runs [] (t # x) = runs [] x" using assms(4) by simp
  also have "L @ runs [] x = butlast L @ (last L # runs [] x)"
    using assms(3) by (simp add: L_def)
  also have "last L # runs [] x = runs [] (last L @ t # x)"
    using l assms(4) runs_plain [of "last L" "[]" "t # x"] by simp
  finally show ?thesis by (simp add: L_def)
qed

lemma fragment_last:
  assumes "f \<noteq> []" "\<not> isTerm (last f)"
  shows "runs [] f \<noteq> [] \<and> last (runs [] f) = fragment f"
proof -
  define P where "P = (\<lambda>c. \<not> isTerm c)"
  define a where "a = rev (dropWhile P (rev f))"
  have f: "f = a @ fragment f"
    unfolding a_def fragment_def P_def [symmetric]
    by (metis rev_append rev_rev_ident takeWhile_dropWhile_id)
  have "P (hd (rev f))" using assms by (simp add: P_def hd_rev)
  then have ne: "fragment f \<noteq> []"
    using assms(1) unfolding fragment_def P_def [symmetric] by (cases "rev f") auto
  have "\<forall>c\<in>set (fragment f). P c"
    unfolding fragment_def P_def [symmetric] by (auto dest: set_takeWhileD)
  then have plain: "\<not> hasTerm (fragment f)"
    by (auto simp: hasTerm_def list_ex_iff P_def)
  show ?thesis
  proof (cases "a = []")
    case True
    with f ne plain show ?thesis by (simp add: runs_plain_Nil)
  next
    case False
    then have "dropWhile P (rev f) \<noteq> []" by (simp add: a_def)
    then have "\<not> P (hd (dropWhile P (rev f)))" by (rule hd_dropWhile)
    then have "isTerm (last a)"
      using False by (simp add: a_def P_def last_rev)
    from runs_ends_term [OF False this, of "[]" "fragment f"] f ne plain
    show ?thesis by (simp add: runs_plain_Nil)
  qed
qed


section \<open>Properties of a session\<close>

subsection \<open>One step of the environment\<close>

lemma run_ack: "nextFn s = Some k \<Longrightarrow> run s = resume (ack s)"
  by (subst run.simps) (simp add: resume_def)

lemma run_load: "nextFn s = None \<Longrightarrow> loading s = Some b \<Longrightarrow> run s = resume (onload b s)"
  by (subst run.simps) (simp add: resume_def)

lemma run_idle: "nextFn s = None \<Longrightarrow> loading s = None \<Longrightarrow> run s = Some (Inr s)"
  by (subst run.simps) simp

lemma deliver:
  "lines s = Some ls \<Longrightarrow> canRead s \<Longrightarrow> ''line'' \<in> events s \<Longrightarrow> nextFn s = None \<Longrightarrow>
     resume (step s) =
     resume (step (s\<lparr>lines := Some [], nextFn := None, trace := trace s @ map Line ls\<rparr>))"
proof (induction ls arbitrary: s)
  case Nil
  then have "s\<lparr>lines := Some [], nextFn := None, trace := trace s @ map Line []\<rparr> = s"
    by (cases s) simp
  then show ?case by simp
next
  case (Cons l ls)
  define s1 where "s1 = s\<lparr>lines := Some ls, nextFn := Some StepFn, trace := trace s @ [Line l]\<rparr>"
  define s2 where "s2 = s\<lparr>lines := Some ls, nextFn := None, trace := trace s @ [Line l]\<rparr>"
  have "step s = Inr s1"
    using Cons.prems by (simp add: step_def emitLine_def s1_def)
  then have "resume (step s) = run s1" by (simp add: resume_def)
  also have "\<dots> = resume (ack s1)" by (rule run_ack [of _ StepFn]) (simp add: s1_def)
  also have "ack s1 = step s2"
  proof -
    have "s1\<lparr>nextFn := None\<rparr> = s2" by (cases s) (simp add: s1_def s2_def)
    then show ?thesis by (simp add: ack_def s1_def)
  qed
  also have "resume (step s2) =
      resume (step (s2\<lparr>lines := Some [], nextFn := None, trace := trace s2 @ map Line ls\<rparr>))"
    using Cons.prems by (intro Cons.IH) (simp_all add: s2_def)
  also have "s2\<lparr>lines := Some [], nextFn := None, trace := trace s2 @ map Line ls\<rparr> =
      s\<lparr>lines := Some [], nextFn := None, trace := trace s @ map Line (l # ls)\<rparr>"
    by (simp add: s2_def)
  finally show ?case .
qed

lemma hd_tidy: "tidy True (a @ b) \<Longrightarrow> hasTerm a \<Longrightarrow> runs [] a \<noteq> []"
proof (cases a)
  case Nil
  assume "hasTerm a" with Nil show ?thesis by (simp add: hasTerm_Nil)
next
  case (Cons c cs)
  assume "tidy True (a @ b)"
  with Cons have "\<not> isTerm c" by (auto simp: isTerm_def split: if_splits)
  with Cons show ?thesis by (simp add: runs_nonempty)
qed

lemma matchLines_runs: "runs [] a \<noteq> [] \<Longrightarrow> matchLines a = Some (runs [] a)"
  by (simp add: matchLines_def split: list.splits)

lemma step_more:
  "lines s = Some [] \<Longrightarrow> loading s = None \<Longrightarrow> file' s = Some f \<Longrightarrow> readPos s \<le> fileLength s \<Longrightarrow>
   step s = Inr (s\<lparr>readPos := readPos s + chunkSize s,
                   loading := Some (slice f (readPos s) (readPos s + chunkSize s))\<rparr>)"
  by (simp add: step_def hasMoreData_def read_def readAsText_def)

lemma step_done:
  "lines s = Some [] \<Longrightarrow> \<not> readPos s \<le> fileLength s \<Longrightarrow> step s = Inr (emitEnd s)"
  by (simp add: step_def hasMoreData_def)

lemma onload_plain_more:
  "\<not> hasTerm (chunk s @ b) \<Longrightarrow> readPos s \<le> fileLength s \<Longrightarrow> file' s = Some f \<Longrightarrow>
   onload b s = Inr (s\<lparr>chunk := chunk s @ b, readPos := readPos s + chunkSize s,
     loading := Some (slice f (readPos s) (readPos s + chunkSize s))\<rparr>)"
  by (cases s) (simp add: onload_def Let_def hasMoreData_def read_def readAsText_def)

lemma onload_plain_last:
  "\<not> hasTerm (chunk s @ b) \<Longrightarrow> \<not> readPos s \<le> fileLength s \<Longrightarrow> chunk s @ b \<noteq> [] \<Longrightarrow>
   ''line'' \<in> events s \<Longrightarrow>
   onload b s = Inr (s\<lparr>chunk := chunk s @ b, loading := None, nextFn := Some EndFn,
     trace := trace s @ [Line (chunk s @ b)]\<rparr>)"
  by (cases s) (simp add: onload_def Let_def hasMoreData_def emitLine_def)

lemma onload_plain_end:
  "\<not> readPos s \<le> fileLength s \<Longrightarrow> chunk s @ b = [] \<Longrightarrow> ''end'' \<in> events s \<Longrightarrow>
   onload b s = Inr (s\<lparr>loading := None, trace := trace s @ [End]\<rparr>)"
  by (cases s) (simp add: onload_def Let_def hasMoreData_def emitEnd_def hasTerm_Nil)

lemma onload_lines_done:
  "hasTerm (chunk s @ b) \<Longrightarrow> \<not> readPos s \<le> fileLength s \<Longrightarrow>
   onload b s = step (s\<lparr>chunk := chunk s @ b, lines := matchLines (chunk s @ b), loading := None\<rparr>)"
  by (cases s) (simp add: onload_def Let_def hasMoreData_def)

lemma onload_lines_lf:
  "hasTerm (chunk s @ b) \<Longrightarrow> readPos s \<le> fileLength s \<Longrightarrow> last (chunk s @ b) = LF \<Longrightarrow>
   onload b s = step (s\<lparr>chunk := [], lines := matchLines (chunk s @ b), loading := None\<rparr>)"
  by (cases s) (simp add: onload_def Let_def hasMoreData_def)

lemma onload_lines_pop:
  "hasTerm (chunk s @ b) \<Longrightarrow> readPos s \<le> fileLength s \<Longrightarrow> last (chunk s @ b) \<noteq> LF \<Longrightarrow>
   matchLines (chunk s @ b) = Some L \<Longrightarrow> L \<noteq> [] \<Longrightarrow>
   onload b s = step (s\<lparr>chunk := last L, lines := Some (butlast L), loading := None\<rparr>)"
  by (cases s; cases L) (simp_all add: onload_def Let_def hasMoreData_def)

lemma ack_end:
  "nextFn s = Some EndFn \<Longrightarrow> ''end'' \<in> events s \<Longrightarrow>
   ack s = Inr (s\<lparr>nextFn := None, trace := trace s @ [End]\<rparr>)"
  by (cases s) (simp add: ack_def emitEnd_def)

lemma step_end:
  "lines s = Some [] \<Longrightarrow> \<not> readPos s \<le> fileLength s \<Longrightarrow> ''end'' \<in> events s \<Longrightarrow>
   step s = Inr (s\<lparr>trace := trace s @ [End]\<rparr>)"
  by (simp add: step_def hasMoreData_def emitEnd_def)

lemma reading:
  assumes "0 < chunkSize s" "file' s = Some f" "fileLength s = length f"
    "readPos s = pos + chunkSize s" "loading s = Some (slice f pos (pos + chunkSize s))"
    "nextFn s = None" "canRead s" "''line'' \<in> events s" "''end'' \<in> events s"
    "\<not> hasTerm (chunk s)" "tidy True (chunk s @ drop pos f)"
  shows "map_option (map_sum id trace) (run s) =
    Some (Inr (trace s @ map Line (runs [] (chunk s @ drop pos f)) @ [End]))"
  using assms
proof (induction "length f - pos" arbitrary: s pos rule: less_induct)
  case less
  define cs where "cs = chunkSize s"
  define p where "p = chunk s"
  define blob where "blob = take cs (drop pos f)"
  define rest where "rest = drop (pos + cs) f"
  have cs: "0 < cs" using less.prems(1) by (simp add: cs_def)
  have ld: "loading s = Some blob"
    using less.prems(5) by (simp add: slice_def blob_def cs_def)
  have split: "drop pos f = blob @ rest"
    unfolding blob_def rest_def by (metis add.commute append_take_drop_id drop_drop)
  have nb: "tidy True ((p @ blob) @ rest)"
    using less.prems(11) by (simp add: p_def split)
  have run: "run s = resume (onload blob s)"
    using less.prems(6) ld by (rule run_load)
  have more: "(readPos s \<le> fileLength s) = (pos + cs \<le> length f)"
    using less.prems by (simp add: cs_def)
  have next_read: "map_option (map_sum id trace) (run t) =
      Some (Inr (trace t @ map Line (runs [] (chunk t @ rest)) @ [End]))"
    if "pos + cs \<le> length f" "chunkSize t = cs" "file' t = Some f" "fileLength t = length f"
      "readPos t = pos + cs + cs" "loading t = Some (slice f (pos + cs) (pos + cs + cs))"
      "nextFn t = None" "canRead t" "''line'' \<in> events t" "''end'' \<in> events t"
      "\<not> hasTerm (chunk t)" "tidy True (chunk t @ rest)" for t
  proof -
    have "length f - (pos + cs) < length f - pos" using that(1) cs by simp
    from less.hyps [OF this, of t] that cs show ?thesis by (simp add: rest_def)
  qed
  show ?case
  proof (cases "hasTerm (p @ blob)")
    case False
    show ?thesis
    proof (cases "pos + cs \<le> length f")
      case True
      define t where "t = s\<lparr>chunk := chunk s @ blob, readPos := readPos s + chunkSize s,
        loading := Some (slice f (readPos s) (readPos s + chunkSize s))\<rparr>"
      have "onload blob s = Inr t"
        unfolding t_def using False True more less.prems(2)
        by (intro onload_plain_more) (simp_all add: p_def)
      then have "run s = run t" using run by (simp add: resume_def)
      moreover have "map_option (map_sum id trace) (run t) =
          Some (Inr (trace t @ map Line (runs [] (chunk t @ rest)) @ [End]))"
        using True False less.prems nb
        by (intro next_read) (simp_all add: t_def cs_def p_def)
      ultimately show ?thesis
        by (simp add: t_def split p_def)
    next
      case nomore: False
      then have rest: "rest = []" by (simp add: rest_def)
      then have w: "chunk s @ drop pos f = p @ blob" by (simp add: split p_def)
      show ?thesis
      proof (cases "p @ blob = []")
        case True
        define u where "u = s\<lparr>loading := None, trace := trace s @ [End]\<rparr>"
        have "onload blob s = Inr u"
          unfolding u_def using True nomore more less.prems(9)
          by (intro onload_plain_end) (simp_all add: p_def)
        moreover have "run u = Some (Inr u)"
          using less.prems by (intro run_idle) (simp_all add: u_def)
        ultimately show ?thesis
          using run True by (simp add: resume_def w u_def)
      next
        case ne: False
        define t where "t = s\<lparr>chunk := chunk s @ blob, loading := None, nextFn := Some EndFn,
          trace := trace s @ [Line (chunk s @ blob)]\<rparr>"
        define u where "u = t\<lparr>nextFn := None, trace := trace t @ [End]\<rparr>"
        have "onload blob s = Inr t"
          unfolding t_def using False ne nomore more less.prems(8)
          by (intro onload_plain_last) (simp_all add: p_def)
        then have "run s = run t" using run by (simp add: resume_def)
        also have "\<dots> = resume (ack t)" by (rule run_ack [of _ EndFn]) (simp add: t_def)
        also have "ack t = Inr u"
          unfolding u_def using less.prems(9) by (intro ack_end) (simp_all add: t_def)
        also have "resume (Inr u) = Some (Inr u)"
          unfolding resume_def using run_idle [of u] by (simp add: u_def t_def)
        finally show ?thesis
          using False ne by (simp add: w u_def t_def runs_plain_Nil p_def)
      qed
    qed
  next
    case True
    define L where "L = runs [] (p @ blob)"
    have L: "L \<noteq> []" unfolding L_def using nb True by (rule hd_tidy)
    then have ml: "matchLines (chunk s @ blob) = Some L"
      unfolding L_def p_def by (rule matchLines_runs)
    have ne: "p @ blob \<noteq> []" using True by (auto simp: hasTerm_Nil)
    show ?thesis
    proof (cases "pos + cs \<le> length f")
      case nomore: False
      then have rest: "rest = []" by (simp add: rest_def)
      then have w: "chunk s @ drop pos f = p @ blob" by (simp add: split p_def)
      define s2 where "s2 = s\<lparr>chunk := chunk s @ blob, lines := Some L, loading := None\<rparr>"
      define s5 where "s5 = s2\<lparr>lines := Some [], nextFn := None, trace := trace s2 @ map Line L\<rparr>"
      define u where "u = s5\<lparr>trace := trace s5 @ [End]\<rparr>"
      have "onload blob s = step s2"
        unfolding s2_def ml [symmetric] using True nomore more
        by (intro onload_lines_done) (simp_all add: p_def)
      then have "run s = resume (step s2)" using run by simp
      also have "\<dots> = resume (step s5)"
        unfolding s5_def using less.prems by (intro deliver) (simp_all add: s2_def)
      also have "step s5 = Inr u"
        unfolding u_def using nomore more less.prems(9)
        by (intro step_end) (simp_all add: s5_def s2_def)
      also have "resume (Inr u) = Some (Inr u)"
        unfolding resume_def using run_idle [of u]
        by (simp add: u_def s5_def s2_def)
      finally show ?thesis
        by (simp add: w u_def s5_def s2_def L_def)
    next
      case more': True
      show ?thesis
      proof (cases "last (p @ blob) = LF")
        case lf: True
        define s2 where "s2 = s\<lparr>chunk := [], lines := Some L, loading := None\<rparr>"
        define s5 where "s5 = s2\<lparr>lines := Some [], nextFn := None, trace := trace s2 @ map Line L\<rparr>"
        define t where "t = s5\<lparr>readPos := readPos s5 + chunkSize s5,
          loading := Some (slice f (readPos s5) (readPos s5 + chunkSize s5))\<rparr>"
        have "onload blob s = step s2"
          unfolding s2_def ml [symmetric] using True more' more lf
          by (intro onload_lines_lf) (simp_all add: p_def)
        then have "run s = resume (step s2)" using run by simp
        also have "\<dots> = resume (step s5)"
          unfolding s5_def using less.prems by (intro deliver) (simp_all add: s2_def)
        also have "step s5 = Inr t"
          unfolding t_def using more' more less.prems(2)
          by (intro step_more) (simp_all add: s5_def s2_def)
        finally have "run s = run t" by (simp add: resume_def)
        moreover have "tidy True rest"
          using nb ne lf by (rule tidy_after_LF)
        then have "map_option (map_sum id trace) (run t) =
            Some (Inr (trace t @ map Line (runs [] (chunk t @ rest)) @ [End]))"
          using more' less.prems
          by (intro next_read) (simp_all add: t_def s5_def s2_def cs_def hasTerm_Nil)
        moreover have "runs [] ((p @ blob) @ rest) = L @ runs [] rest"
          unfolding L_def using ne lf by (intro runs_ends_term) (simp_all add: isTerm_def)
        ultimately show ?thesis
          by (simp add: t_def s5_def s2_def split p_def)
      next
        case nlf: False
        have lastL: "last L \<noteq> [] \<and> \<not> hasTerm (last L)"
          using L by (intro runs_members [of "[]" _ "p @ blob"]) (simp_all add: hasTerm_Nil L_def)
        define s2 where "s2 = s\<lparr>chunk := last L, lines := Some (butlast L), loading := None\<rparr>"
        define s5 where "s5 = s2\<lparr>lines := Some [], nextFn := None,
          trace := trace s2 @ map Line (butlast L)\<rparr>"
        define t where "t = s5\<lparr>readPos := readPos s5 + chunkSize s5,
          loading := Some (slice f (readPos s5) (readPos s5 + chunkSize s5))\<rparr>"
        have "onload blob s = step s2"
          unfolding s2_def using True more' more nlf ml L
          by (intro onload_lines_pop) (simp_all add: p_def)
        then have "run s = resume (step s2)" using run by simp
        also have "\<dots> = resume (step s5)"
          unfolding s5_def using less.prems by (intro deliver) (simp_all add: s2_def)
        also have "step s5 = Inr t"
          unfolding t_def using more' more less.prems(2)
          by (intro step_more) (simp_all add: s5_def s2_def)
        finally have "run s = run t" by (simp add: resume_def)
        moreover have "tidy False rest \<and>
            runs [] ((p @ blob) @ rest) = butlast L @ runs [] (last L @ rest)"
        proof (cases "last (p @ blob) = CR")
          case True
          from tidy_after_CR [OF nb ne True] obtain x where x: "rest = LF # x" "tidy False rest"
            by blast
          have "runs [] ((p @ blob) @ LF # x) = butlast L @ runs [] (last L @ LF # x)"
            unfolding L_def using ne True L
            by (intro runs_pop_term) (simp_all add: isTerm_def L_def)
          with x show ?thesis by simp
        next
          case False
          with nlf have nt: "\<not> isTerm (last (p @ blob))" by (simp add: isTerm_def)
          have "tidy False rest" using nb ne nt by (rule tidy_after_plain)
          moreover have "runs [] ((p @ blob) @ rest) = butlast L @ runs [] (last L @ rest)"
            unfolding L_def using runs_pop [OF ne nt, of "[]" rest] by (simp add: hasTerm_Nil)
          ultimately show ?thesis by blast
        qed
        then have tr: "tidy False rest"
          and rn: "runs [] ((p @ blob) @ rest) = butlast L @ runs [] (last L @ rest)"
          by blast+
        have "tidy True (last L @ rest)"
          using lastL tr by (simp add: tidy_plain_append)
        then have "map_option (map_sum id trace) (run t) =
            Some (Inr (trace t @ map Line (runs [] (chunk t @ rest)) @ [End]))"
          using more' less.prems lastL
          by (intro next_read) (simp_all add: t_def s5_def s2_def cs_def)
        ultimately show ?thesis
          using rn by (simp add: t_def s5_def s2_def split p_def)
      qed
    qed
  qed
qed

subsection \<open>The log does not influence the engine\<close>

lemma logged_fields [simp]:
  "file' (logged t s) = file' s" "fileLength (logged t s) = fileLength s"
  "readPos (logged t s) = readPos s" "chunkSize (logged t s) = chunkSize s"
  "chunk (logged t s) = chunk s" "lines (logged t s) = lines s"
  "canRead (logged t s) = canRead s" "events (logged t s) = events s"
  "loading (logged t s) = loading s" "nextFn (logged t s) = nextFn s"
  "trace (logged t s) = t @ trace s"
  by (simp_all add: logged_def)

lemma read_logged: "read f (logged t s) = map_sum id (logged t) (read f s)"
  by (cases s; cases f) (simp_all add: read_def readAsText_def logged_def Let_def split: option.splits)

lemma step_logged: "step (logged t s) = map_sum id (logged t) (step s)"
  by (cases s)
    (simp add: step_def read_def readAsText_def logged_def Let_def hasMoreData_def emitEnd_def
      emitLine_def split: option.splits list.splits)

lemma emitEnd_logged: "emitEnd (logged t s) = logged t (emitEnd s)"
  by (cases s) (simp add: logged_def emitEnd_def)

lemma ack_logged: "ack (logged t s) = map_sum id (logged t) (ack s)"
proof -
  have eq: "(logged t s)\<lparr>nextFn := None\<rparr> = logged t (s\<lparr>nextFn := None\<rparr>)"
    by (cases s) (simp add: logged_def)
  show ?thesis
    by (simp add: ack_def eq step_logged emitEnd_logged split: option.splits cont.splits)
qed

lemma onload_logged: "onload b (logged t s) = map_sum id (logged t) (onload b s)"
  by (cases s)
    (simp add: onload_def step_def read_def readAsText_def logged_def Let_def hasMoreData_def
      emitEnd_def emitLine_def split: option.splits list.splits)

lemma run_logged_Some:
  assumes "run s = Some r"
  shows "run (logged t s) = Some (map_sum id (logged t) r)"
  apply (rule run.raw_induct
      [where P = "\<lambda>s r. run (logged t s) = Some (map_sum id (logged t) r)", OF _ assms])
  subgoal premises prems for run' s r
  proof (cases "nextFn s")
    case (Some k)
    then have run: "run (logged t s) = resume (map_sum id (logged t) (ack s))"
      using run_ack [of "logged t s" k] by (simp add: ack_logged)
    show ?thesis
    proof (cases "ack s")
      case (Inl e)
      with prems(2) Some run show ?thesis by (auto simp: resume_def)
    next
      case (Inr s')
      with prems(2) Some have "run' s' = Some r" by simp
      from prems(1) [OF this] Inr run show ?thesis by (simp add: resume_def)
    qed
  next
    case None
    show ?thesis
    proof (cases "loading s")
      case ld: None
      with None prems(2) have "r = Inr s" by simp
      with None ld show ?thesis using run_idle [of "logged t s"] by simp
    next
      case (Some b)
      then have run: "run (logged t s) = resume (map_sum id (logged t) (onload b s))"
        using None run_load [of "logged t s" b] by (simp add: onload_logged)
      show ?thesis
      proof (cases "onload b s")
        case (Inl e)
        with prems(2) None Some run show ?thesis by (auto simp: resume_def)
      next
        case (Inr s')
        with prems(2) None Some have "run' s' = Some r" by simp
        from prems(1) [OF this] Inr run show ?thesis by (simp add: resume_def)
      qed
    qed
  qed
  done

lemma run_logged_back:
  assumes "run (logged t s) = Some r'"
  shows "\<exists>r. run s = Some r \<and> r' = map_sum id (logged t) r"
proof -
  have "\<forall>s. logged t s = x \<longrightarrow> (\<exists>r. run s = Some r \<and> r' = map_sum id (logged t) r)"
    if "run x = Some r'" for x
    apply (rule run.raw_induct
      [where P = "\<lambda>x r'. \<forall>s. logged t s = x \<longrightarrow>
         (\<exists>r. run s = Some r \<and> r' = map_sum id (logged t) r)", OF _ that])
    subgoal premises prems for run' x r'
    proof (intro allI impI)
      fix s assume x: "logged t s = x"
      show "\<exists>r. run s = Some r \<and> r' = map_sum id (logged t) r"
      proof (cases "nextFn s")
        case (Some k)
        then have run: "run s = resume (ack s)" by (rule run_ack)
        show ?thesis
        proof (cases "ack s")
          case (Inl e)
          with prems(2) x [symmetric] Some run show ?thesis by (auto simp: ack_logged resume_def)
        next
          case (Inr s')
          with prems(2) x [symmetric] Some have "run' (logged t s') = Some r'"
            by (simp add: ack_logged)
          from prems(1) [OF this] Inr run show ?thesis by (simp add: resume_def)
        qed
      next
        case None
        show ?thesis
        proof (cases "loading s")
          case ld: None
          with None prems(2) x [symmetric] have "r' = Inr (logged t s)" by simp
          with None ld show ?thesis using run_idle [of s] by simp
        next
          case (Some b)
          with None have run: "run s = resume (onload b s)" by (rule run_load)
          show ?thesis
          proof (cases "onload b s")
            case (Inl e)
            with prems(2) x [symmetric] None Some run show ?thesis
              by (auto simp: onload_logged resume_def)
          next
            case (Inr s')
            with prems(2) x [symmetric] None Some have "run' (logged t s') = Some r'"
              by (simp add: onload_logged)
            from prems(1) [OF this] Inr run show ?thesis by (simp add: resume_def)
          qed
        qed
      qed
    qed
    done
  from this [OF assms] show ?thesis by blast
qed

lemma run_logged: "run (logged t s) = map_option (map_sum id (logged t)) (run s)"
proof (cases "run s")
  case None
  have "run (logged t s) = None"
  proof (rule ccontr)
    assume "run (logged t s) \<noteq> None"
    then obtain r' where "run (logged t s) = Some r'" by blast
    from run_logged_back [OF this] None show False by simp
  qed
  with None show ?thesis by simp
next
  case (Some r)
  then show ?thesis by (simp add: run_logged_Some)
qed

subsection \<open>Whole sessions\<close>

lemma chunkSize_engine: "0 < chunkSize (engine options)"
  by (simp add: engine_def on_def LineReader_def split: option.splits)

lemma engine_fields:
  "loading (engine options) = None" "nextFn (engine options) = None" "canRead (engine options)"
  "events (engine options) = {''error'', ''end'', ''line''}" "trace (engine options) = []"
  by (simp_all add: engine_def on_def LineReader_def)

lemma read_file:
  "loading s = None \<Longrightarrow>
   read (Some f) s = Inr (s\<lparr>file' := Some f, fileLength := length f, readPos := chunkSize s,
     chunk := [], lines := Some [], loading := Some (take (chunkSize s) f)\<rparr>)"
  by (cases s) (simp add: read_def readAsText_def slice_def)

lemma session_plain:
  assumes "tidy True f"
  shows "session options f = Some (Inr (map Line (runs [] f) @ [End]))"
proof -
  define e where "e = engine options"
  define s where "s = e\<lparr>file' := Some f, fileLength := length f, readPos := chunkSize e,
     chunk := [], lines := Some [], loading := Some (take (chunkSize e) f)\<rparr>"
  have "read (Some f) e = Inr s"
    unfolding s_def e_def by (rule read_file) (simp add: engine_fields)
  then have "session options f = map_option (map_sum id trace) (run s)"
    by (simp add: session_def sessionFrom_def resume_def e_def)
  also have "\<dots> = Some (Inr (trace s @ map Line (runs [] (chunk s @ drop 0 f)) @ [End]))"
    using assms chunkSize_engine [of options]
    by (intro reading) (simp_all add: s_def e_def engine_fields slice_def hasTerm_Nil)
  finally show ?thesis by (simp add: s_def e_def engine_fields)
qed

lemma session_plain_any_chunkSize:
  "tidy True f \<Longrightarrow> session options f = session options' f"
  by (simp add: session_plain)

lemma runs_some: "\<exists>c\<in>set f. \<not> isTerm c \<Longrightarrow> runs cur f \<noteq> []"
  by (induction f arbitrary: cur) (auto simp: runs_nonempty)

lemma session_one_chunk:
  assumes "length f < chunkSize (engine options)" "\<exists>c\<in>set f. \<not> isTerm c"
  shows "session options f = Some (Inr (map Line (runs [] f) @ [End]))"
proof -
  define e where "e = engine options"
  define s where "s = e\<lparr>file' := Some f, fileLength := length f, readPos := chunkSize e,
     chunk := [], lines := Some [], loading := Some (take (chunkSize e) f)\<rparr>"
  have L: "runs [] f \<noteq> []" using assms(2) by (rule runs_some)
  have lt: "length f < chunkSize e" using assms(1) by (simp add: e_def)
  then have tk: "take (chunkSize e) f = f" by simp
  have "read (Some f) e = Inr s"
    unfolding s_def e_def by (rule read_file) (simp add: engine_fields)
  then have "session options f = map_option (map_sum id trace) (run s)"
    by (simp add: session_def sessionFrom_def resume_def e_def)
  also have "run s = resume (onload f s)"
    by (rule run_load) (simp_all add: s_def tk, simp add: e_def engine_fields)
  finally have run: "session options f = map_option (map_sum id trace) (resume (onload f s))" .
  show ?thesis
  proof (cases "hasTerm f")
    case False
    from assms(2) have ne: "f \<noteq> []" by auto
    define t where "t = s\<lparr>chunk := chunk s @ f, loading := None, nextFn := Some EndFn,
          trace := trace s @ [Line (chunk s @ f)]\<rparr>"
    define u where "u = t\<lparr>nextFn := None, trace := trace t @ [End]\<rparr>"
    have "onload f s = Inr t"
      unfolding t_def using False ne lt
      by (intro onload_plain_last) (simp_all add: s_def e_def engine_fields)
    then have "resume (onload f s) = run t" by (simp add: resume_def)
    also have "\<dots> = resume (ack t)" by (rule run_ack [of _ EndFn]) (simp add: t_def)
    also have "ack t = Inr u"
      unfolding u_def by (intro ack_end) (simp_all add: t_def s_def e_def engine_fields)
    also have "resume (Inr u) = Some (Inr u)"
      unfolding resume_def using run_idle [of u] by (simp add: u_def t_def)
    finally show ?thesis
      using run False ne
      by (simp add: u_def t_def s_def e_def engine_fields runs_plain_Nil)
  next
    case True
    define s2 where "s2 = s\<lparr>chunk := chunk s @ f, lines := Some (runs [] f), loading := None\<rparr>"
    define s5 where "s5 = s2\<lparr>lines := Some [], nextFn := None,
      trace := trace s2 @ map Line (runs [] f)\<rparr>"
    define u where "u = s5\<lparr>trace := trace s5 @ [End]\<rparr>"
    have "onload f s = step (s\<lparr>chunk := chunk s @ f, lines := matchLines (chunk s @ f),
        loading := None\<rparr>)"
      using True lt by (intro onload_lines_done) (simp_all add: s_def)
    then have "onload f s = step s2"
      using matchLines_runs [OF L] by (simp add: s2_def s_def)
    then have "resume (onload f s) = resume (step s2)" by simp
    also have "\<dots> = resume (step s5)"
      unfolding s5_def by (intro deliver) (simp_all add: s2_def s_def e_def engine_fields)
    also have "step s5 = Inr u"
      unfolding u_def using lt
      by (intro step_end) (simp_all add: s5_def s2_def s_def e_def engine_fields)
    also have "resume (Inr u) = Some (Inr u)"
      unfolding resume_def using run_idle [of u] by (simp add: u_def s5_def s2_def)
    finally show ?thesis
      using run by (simp add: u_def s5_def s2_def s_def e_def engine_fields)
  qed
qed

section \<open>The claims\<close>

subsection \<open>C1: a file of terminated lines\<close>

text \<open>
  C1 as stated fails on an empty line: the file of the three lines \<open>a\<close>, the empty line and
  \<open>b\<close>, each followed by LF, gives two \<^verbatim>\<open>line\<close> events, not three, because the
  regular expression matches non-empty runs only.
\<close>

theorem empty_line_dropped:
  "session None (unlines [''a'', [], ''b'']) = Some (Inr [Line ''a'', Line ''b'', End]) \<and>
   session None (unlines [''a'', [], ''b'']) \<noteq> Some (Inr (map Line [''a'', [], ''b''] @ [End]))"
  by code_simp

text \<open>
  C1, amended: for every file that is the concatenation of N non-empty lines of
  single-byte (ASCII) characters, none of them CR or LF, each followed by LF, and for
  every chunk size, a session with a consumer that acknowledges every line consists of
  exactly N \<^verbatim>\<open>line\<close> events, in the original order, each carrying the line without its
  terminator, followed by one \<^verbatim>\<open>end\<close> event.
\<close>

theorem terminated_lines_delivered:
  assumes "\<forall>l\<in>set ls. l \<noteq> [] \<and> \<not> hasTerm l \<and> ascii l"
  shows "session options (unlines ls) = Some (Inr (map Line ls @ [End]))"
proof -
  from assms have ls: "\<forall>l\<in>set ls. l \<noteq> [] \<and> \<not> hasTerm l" by blast
  show ?thesis
    using session_plain [OF tidy_unlines [OF ls, of "[]"], of options]
      runs_unlines [OF ls, of "[]"]
    by (simp add: hasTerm_Nil)
qed

theorem terminated_lines_delivered_witness:
  "''a'' \<noteq> [] \<and> \<not> hasTerm ''a'' \<and> ascii ''a'' \<and> ''bb'' \<noteq> [] \<and> \<not> hasTerm ''bb'' \<and> ascii ''bb'' \<and>
   session (Some 2) (unlines [''a'', ''bb'']) = Some (Inr [Line ''a'', Line ''bb'', End])"
  using terminated_lines_delivered [of "[''a'', ''bb'']" "Some 2"]
  by (simp add: hasTerm_def isTerm_def ascii_def)

subsection \<open>C2: chunk boundaries\<close>

text \<open>
  C2 at the file \<open>ab\<close>, CR, \<open>cd\<close>, LF: read in chunks of 3 bytes the session delivers the
  single line \<open>abcd\<close>; read as one chunk it delivers \<open>ab\<close> and \<open>cd\<close>. The first chunk ends
  with CR, which is not LF, so the last match \<open>ab\<close> is kept as the pending text without
  the CR and the next chunk is appended to it.
\<close>

theorem chunk_boundary_merges_lines:
  "session (Some 3) (''ab'' @ [CR] @ ''cd'' @ [LF]) = Some (Inr [Line ''abcd'', End]) \<and>
   session None (''ab'' @ [CR] @ ''cd'' @ [LF]) = Some (Inr [Line ''ab'', Line ''cd'', End])"
  by code_simp

subsection \<open>C3: the scenario with three lines\<close>

text \<open>
  C3: the file \<open>a\<close>, LF, \<open>bb\<close>, LF, \<open>ccc\<close> read with \<^verbatim>\<open>chunkSize = 3\<close> by a consumer
  that acknowledges every line gives the lines \<open>a\<close>, \<open>bb\<close>, \<open>ccc\<close> in this order and then
  one \<^verbatim>\<open>end\<close> event.
\<close>

theorem scenario_three_lines:
  "session (Some 3) (''a'' @ [LF] @ ''bb'' @ [LF] @ ''ccc'') =
     Some (Inr [Line ''a'', Line ''bb'', Line ''ccc'', End])"
  by code_simp

subsection \<open>C4: the final fragment\<close>

text \<open>
  C4 as stated fails on a file that ends with a CR that no LF follows: the file \<open>a\<close>, LF,
  CR does not end with a line terminator, and its final fragment, the CR, is not
  delivered: the only \<^verbatim>\<open>line\<close> event is the terminated line \<open>a\<close>.
\<close>

theorem trailing_CR_not_delivered:
  "session None (''a'' @ [LF, CR]) = Some (Inr [Line ''a'', End]) \<and>
   session None (''a'' @ [LF, CR]) \<noteq> Some (Inr [Line ''a'', Line [CR], End])"
  by code_simp

text \<open>
  C4, amended: for every non-empty file of single-byte (ASCII) characters that does not
  end with CR or LF, read either with a chunk size larger than the file or, with any
  chunk size, when all its lines are non-empty and end in LF or in CR LF, the final
  fragment (what follows the last CR or LF) is delivered as one more \<^verbatim>\<open>line\<close> event
  after the lines before it, and exactly one \<^verbatim>\<open>end\<close> event follows it.
\<close>

theorem final_fragment_delivered:
  assumes "ascii f" "f \<noteq> []" "\<not> isTerm (last f)"
    "length f < chunkSize (engine options) \<or> tidy True f"
  shows "session options f =
    Some (Inr (map Line (butlast (runs [] f)) @ [Line (fragment f), End]))"
proof -
  from fragment_last [OF assms(2,3)]
  have L: "runs [] f \<noteq> []" and fr: "last (runs [] f) = fragment f" by blast+
  have "session options f = Some (Inr (map Line (runs [] f) @ [End]))"
  proof (cases "tidy True f")
    case True
    then show ?thesis by (rule session_plain)
  next
    case False
    with assms(4) have "length f < chunkSize (engine options)" by blast
    moreover have "\<exists>c\<in>set f. \<not> isTerm c"
      using assms(2,3) last_in_set by blast
    ultimately show ?thesis by (rule session_one_chunk)
  qed
  also have "runs [] f = butlast (runs [] f) @ [fragment f]"
    using L fr by (metis append_butlast_last_id)
  finally show ?thesis by simp
qed

text \<open>
  Two instances: the file \<open>a\<close>, CR, LF, \<open>bb\<close>, LF, \<open>ccc\<close> read in chunks of 3 bytes, and
  the file \<open>a\<close>, LF, LF, \<open>b\<close>, CR, \<open>c\<close>, with an empty line and a CR of its own, read as
  one chunk.
\<close>

theorem final_fragment_delivered_witness:
  "ascii (''a'' @ [CR, LF] @ ''bb'' @ [LF] @ ''ccc'') \<and>
   ''a'' @ [CR, LF] @ ''bb'' @ [LF] @ ''ccc'' \<noteq> [] \<and>
   \<not> isTerm (last (''a'' @ [CR, LF] @ ''bb'' @ [LF] @ ''ccc'')) \<and>
   tidy True (''a'' @ [CR, LF] @ ''bb'' @ [LF] @ ''ccc'') \<and>
   session (Some 3) (''a'' @ [CR, LF] @ ''bb'' @ [LF] @ ''ccc'') =
     Some (Inr [Line ''a'', Line ''bb'', Line ''ccc'', End]) \<and>
   ascii (''a'' @ [LF, LF] @ ''b'' @ [CR] @ ''c'') \<and>
   ''a'' @ [LF, LF] @ ''b'' @ [CR] @ ''c'' \<noteq> [] \<and>
   \<not> isTerm (last (''a'' @ [LF, LF] @ ''b'' @ [CR] @ ''c'')) \<and>
   length (''a'' @ [LF, LF] @ ''b'' @ [CR] @ ''c'') < chunkSize (engine None) \<and>
   session None (''a'' @ [LF, LF] @ ''b'' @ [CR] @ ''c'') =
     Some (Inr [Line ''a'', Line ''b'', Line ''c'', End])"
  using
    final_fragment_delivered [of "''a'' @ [CR, LF] @ ''bb'' @ [LF] @ ''ccc''" "Some 3"]
    final_fragment_delivered [of "''a'' @ [LF, LF] @ ''b'' @ [CR] @ ''c''" None]
  by (simp add: ascii_def isTerm_def fragment_def engine_def on_def LineReader_def)

subsection \<open>C5: abort\<close>

text \<open>
  C5 at the file \<open>abc\<close>: \<^verbatim>\<open>abort\<close> is called while the first read is outstanding, when no
  event has fired yet; when the read completes, the text has no terminator and no data
  is left, and the \<^verbatim>\<open>line\<close> event fires with \<open>abc\<close>, since this branch does not look at
  \<^verbatim>\<open>canRead\<close>.
\<close>

theorem line_after_abort:
  "map_sum id trace (execs [Read (Some ''abc''), Abort] (engine None)) = Inr [] \<and>
   map_sum id trace (execs [Read (Some ''abc''), Abort, Load] (engine None)) =
     Inr [Line ''abc'']"
  by code_simp

subsection \<open>C6: where a line ends\<close>




subsection \<open>C7: exceptions\<close>

text \<open>
  C7 at the file that is a single LF: the completion handler of the first read throws a
  \<^verbatim>\<open>TypeError\<close>. The text contains a terminator and nothing else, so \<^verbatim>\<open>match\<close> returns
  \<^verbatim>\<open>null\<close>, and \<^verbatim>\<open>_step\<close> reads \<^verbatim>\<open>lines.length\<close>.
\<close>

theorem onload_throws_on_terminators_only:
  "execs [Read (Some [LF]), Load] (engine None) = Inl TypeError"
  by code_simp

subsection \<open>C8: a failed read\<close>

text \<open>
  C8: when a read is outstanding, no continuation is held and the chunk source reports
  the failure \<open>e\<close>, the \<^verbatim>\<open>error\<close> callback receives \<open>e\<close>, no other field of the engine
  changes apart from the read being over (in particular no new read is requested and
  \<^verbatim>\<open>readPos\<close> stays), and the session is at rest in that state: no \<^verbatim>\<open>line\<close> event and no
  further read follows unless the consumer acts.
\<close>

theorem read_failure_reported:
  assumes "''error'' \<in> events s" "loading s = Some b" "nextFn s = None"
  shows "exec (Fail e) s = Inr (s\<lparr>loading := None, trace := trace s @ [Error e]\<rparr>) \<and>
    run (s\<lparr>loading := None, trace := trace s @ [Error e]\<rparr>) =
      Some (Inr (s\<lparr>loading := None, trace := trace s @ [Error e]\<rparr>))"
proof
  show "exec (Fail e) s = Inr (s\<lparr>loading := None, trace := trace s @ [Error e]\<rparr>)"
    using assms(1,2) by (simp add: onerror_def emitError_def)
  show "run (s\<lparr>loading := None, trace := trace s @ [Error e]\<rparr>) =
      Some (Inr (s\<lparr>loading := None, trace := trace s @ [Error e]\<rparr>))"
    using assms(3) by (intro run_idle) simp_all
qed

text \<open>
  The scenario of the failure on the second chunk request: \<open>secondRead\<close> is reached on
  \<open>threeLines\<close> with \<^verbatim>\<open>chunkSize = 3\<close>, and its outstanding read fails.
\<close>

theorem read_failure_reported_witness:
  "execs [Read (Some threeLines), Load, Ack] (engine (Some 3)) = Inr secondRead \<and>
   ''error'' \<in> events secondRead \<and> loading secondRead = Some (''b'' @ [LF] @ ''c'') \<and>
   nextFn secondRead = None \<and>
   exec (Fail ''io'') secondRead =
     Inr (secondRead\<lparr>loading := None, trace := [Line ''a'', Error ''io'']\<rparr>) \<and>
   run (secondRead\<lparr>loading := None, trace := [Line ''a'', Error ''io'']\<rparr>) =
     Some (Inr (secondRead\<lparr>loading := None, trace := [Line ''a'', Error ''io'']\<rparr>))"
proof -
  have "execs [Read (Some threeLines), Load, Ack] (engine (Some 3)) = Inr secondRead"
    by code_simp
  then show ?thesis
    using read_failure_reported [of secondRead "''b'' @ [LF] @ ''c''" "''io''"]
    by (simp add: secondRead_def)
qed

subsection \<open>C9: the empty read at the end of the file\<close>

text \<open>
  C9 as stated fails when the session is aborted: \<open>landed\<close> is reached on the file \<open>a\<close>,
  LF, \<open>b\<close>, LF with \<^verbatim>\<open>chunkSize = 4\<close>, with \<^verbatim>\<open>readPos\<close> exactly the length of the file
  and an empty pending text; the consumer calls \<^verbatim>\<open>abort\<close> and acknowledges the line, and
  the \<^verbatim>\<open>end\<close> event fires with no further read: \<^verbatim>\<open>readPos\<close> stays and no read is
  outstanding.
\<close>

theorem abort_at_file_end:
  "execs [Read (Some (''a'' @ [LF] @ ''b'' @ [LF])), Load] (engine (Some 4)) = Inr landed \<and>
   readPos landed = fileLength landed \<and> chunk landed = [] \<and>
   execs [Abort, Ack] landed =
     Inr (landed\<lparr>canRead := False, nextFn := None, trace := [Line ''a'', End]\<rparr>)"
  by code_simp

text \<open>
  C9, amended: a zero-byte file gives no \<^verbatim>\<open>line\<close> event and exactly one \<^verbatim>\<open>end\<close> event.
  When the read of the last chunk is outstanding with \<^verbatim>\<open>readPos\<close> exactly the length of
  the file, the session has not been aborted, and the chunk completes a text that ends
  with LF and has at least one character other than CR and LF, so that the pending text
  becomes empty, then with a consumer that acknowledges every line the queued lines are
  delivered, exactly one more read is made (\<^verbatim>\<open>readPos\<close> ends one chunk size beyond the
  length), its slice is empty, and its completion leads directly to the \<^verbatim>\<open>end\<close> event:
  the session comes to rest with no read outstanding.
\<close>

theorem empty_read_ends_session:
  assumes "file' s = Some f" "fileLength s = length f" "readPos s = fileLength s"
    "0 < chunkSize s" "loading s = Some b" "nextFn s = None" "canRead s"
    "''line'' \<in> events s" "''end'' \<in> events s"
    "chunk s @ b \<noteq> []" "last (chunk s @ b) = LF" "\<exists>c\<in>set (chunk s @ b). \<not> isTerm c"
  shows "run s =
      Some (Inr (s\<lparr>readPos := fileLength s + chunkSize s, chunk := [], lines := Some [],
                    loading := None,
                    trace := trace s @ map Line (runs [] (chunk s @ b)) @ [End]\<rparr>)) \<and>
    slice f (readPos s) (readPos s + chunkSize s) = [] \<and>
    session options [] = Some (Inr [End])"
proof (intro conjI)
  define L where "L = runs [] (chunk s @ b)"
  define s2 where "s2 = s\<lparr>chunk := [], lines := Some L, loading := None\<rparr>"
  define s5 where "s5 = s2\<lparr>lines := Some [], nextFn := None, trace := trace s2 @ map Line L\<rparr>"
  define t where "t = s5\<lparr>readPos := readPos s5 + chunkSize s5,
    loading := Some (slice f (readPos s5) (readPos s5 + chunkSize s5))\<rparr>"
  define u where "u = t\<lparr>loading := None, trace := trace t @ [End]\<rparr>"
  have L: "L \<noteq> []" unfolding L_def using assms(12) by (rule runs_some)
  then have ml: "matchLines (chunk s @ b) = Some L"
    unfolding L_def by (rule matchLines_runs)
  have ht: "hasTerm (chunk s @ b)"
    using assms(10,11) last_in_set [OF assms(10)]
    by (auto simp: hasTerm_def list_ex_iff isTerm_def)
  show empty: "slice f (readPos s) (readPos s + chunkSize s) = []"
    using assms(2,3) by (simp add: slice_def)
  have "run s = resume (onload b s)"
    using assms(6,5) by (rule run_load)
  also have "onload b s = step s2"
    unfolding s2_def ml [symmetric] using ht assms(3,11)
    by (intro onload_lines_lf) simp_all
  also have "resume (step s2) = resume (step s5)"
    unfolding s5_def using assms(6,7,8) by (intro deliver) (simp_all add: s2_def)
  also have "step s5 = Inr t"
    unfolding t_def using assms(1,3)
    by (intro step_more) (simp_all add: s5_def s2_def)
  also have "resume (Inr t) = run t" by (simp add: resume_def)
  also have "run t = resume (onload [] t)"
    using empty by (intro run_load) (simp_all add: t_def s5_def s2_def)
  also have "onload [] t = Inr u"
    unfolding u_def using assms(3,4,9)
    by (intro onload_plain_end) (simp_all add: t_def s5_def s2_def)
  also have "resume (Inr u) = Some (Inr u)"
    unfolding resume_def using run_idle [of u] by (simp add: u_def t_def s5_def)
  also have "u = s\<lparr>readPos := fileLength s + chunkSize s, chunk := [], lines := Some [],
      loading := None, trace := trace s @ map Line (runs [] (chunk s @ b)) @ [End]\<rparr>"
    using assms(3,6)
    by (cases s) (simp add: u_def t_def s5_def s2_def L_def)
  finally show "run s =
      Some (Inr (s\<lparr>readPos := fileLength s + chunkSize s, chunk := [], lines := Some [],
                    loading := None,
                    trace := trace s @ map Line (runs [] (chunk s @ b)) @ [End]\<rparr>))" .
  show "session options [] = Some (Inr [End])"
    using session_plain [of "[]" options] by simp
qed

text \<open>The file \<open>x\<close>, LF read with \<^verbatim>\<open>chunkSize = 2\<close>, from \<open>lastChunk\<close> on.\<close>

theorem empty_read_ends_session_witness:
  "read (Some (''x'' @ [LF])) (engine (Some 2)) = Inr lastChunk \<and>
   file' lastChunk = Some (''x'' @ [LF]) \<and> fileLength lastChunk = length (''x'' @ [LF]) \<and>
   readPos lastChunk = fileLength lastChunk \<and> 0 < chunkSize lastChunk \<and>
   loading lastChunk = Some (''x'' @ [LF]) \<and> nextFn lastChunk = None \<and> canRead lastChunk \<and>
   ''line'' \<in> events lastChunk \<and> ''end'' \<in> events lastChunk \<and>
   chunk lastChunk @ ''x'' @ [LF] \<noteq> [] \<and> last (chunk lastChunk @ ''x'' @ [LF]) = LF \<and>
   (\<exists>c\<in>set (chunk lastChunk @ ''x'' @ [LF]). \<not> isTerm c) \<and>
   run lastChunk =
     Some (Inr (lastChunk\<lparr>readPos := 4, loading := None, trace := [Line ''x'', End]\<rparr>)) \<and>
   slice (''x'' @ [LF]) 2 4 = [] \<and>
   session (Some 2) [] = Some (Inr [End])"
proof -
  have "read (Some (''x'' @ [LF])) (engine (Some 2)) = Inr lastChunk"
    by code_simp
  then show ?thesis
    using empty_read_ends_session [of lastChunk "''x'' @ [LF]" "''x'' @ [LF]" "Some 2"]
    by (simp add: lastChunk_def isTerm_def slice_def)
qed

subsection \<open>C10: reading another file with the same engine\<close>

text \<open>
  C10 as stated fails after \<^verbatim>\<open>abort\<close>: \<^verbatim>\<open>read\<close> does not set \<^verbatim>\<open>canRead\<close> again. On an
  engine whose session on the file \<open>x\<close>, LF, \<open>y\<close>, LF was aborted after the line \<open>x\<close>, the
  session on the file \<open>z\<close>, LF consists of the \<^verbatim>\<open>end\<close> event alone, while a fresh engine
  delivers the line \<open>z\<close> first.
\<close>

theorem abort_survives_read:
  "map_sum id trace
     (execs [Read (Some (''x'' @ [LF] @ ''y'' @ [LF])), Load, Abort, Ack,
             Read (Some (''z'' @ [LF])), Load] (engine None)) = Inr [Line ''x'', End, End] \<and>
   session None (''z'' @ [LF]) = Some (Inr [Line ''z'', End])"
  by code_simp

text \<open>
  C10, amended: \<^verbatim>\<open>read\<close> with a file, on an engine with no read outstanding, takes the
  file and its length, empties the pending text and the line queue and requests the
  slice that starts at 0, leaving every other field, \<^verbatim>\<open>canRead\<close> among them, as it was.
  If moreover the engine has not been aborted and holds no continuation, as after a
  session that ran to its \<^verbatim>\<open>end\<close>, the events of the new session are those of a fresh
  engine with the same chunk size and callbacks, added to the events logged before.
\<close>

theorem read_resets_session:
  assumes "loading s = None"
  shows "read (Some f) s =
      Inr (s\<lparr>file' := Some f, fileLength := length f, readPos := chunkSize s, chunk := [],
             lines := Some [], loading := Some (slice f 0 (chunkSize s))\<rparr>) \<and>
    (canRead s \<and> nextFn s = None \<and> events s = events (engine options) \<and>
     chunkSize s = chunkSize (engine options) \<longrightarrow>
       sessionFrom s f = map_option (map_sum id ((@) (trace s))) (session options f))"
proof (intro conjI impI)
  show rd: "read (Some f) s =
      Inr (s\<lparr>file' := Some f, fileLength := length f, readPos := chunkSize s, chunk := [],
             lines := Some [], loading := Some (slice f 0 (chunkSize s))\<rparr>)"
    using read_file [OF assms, of f] by (simp add: slice_def)
  assume a: "canRead s \<and> nextFn s = None \<and> events s = events (engine options) \<and>
     chunkSize s = chunkSize (engine options)"
  define e where "e = engine options"
  define e' where "e' = e\<lparr>file' := Some f, fileLength := length f, readPos := chunkSize e,
    chunk := [], lines := Some [], loading := Some (take (chunkSize e) f)\<rparr>"
  have e: "read (Some f) e = Inr e'"
    unfolding e'_def e_def by (rule read_file) (simp add: engine_fields)
  have "read (Some f) s = Inr (logged (trace s) e')"
    using a assms engine_fields [of options] unfolding read_file [OF assms]
    by (cases s; cases e) (simp add: e'_def logged_def e_def [symmetric])
  then have "sessionFrom s f = map_option (map_sum id trace) (run (logged (trace s) e'))"
    by (simp add: sessionFrom_def resume_def)
  also have "\<dots> = map_option (map_sum id ((@) (trace s))) (map_option (map_sum id trace) (run e'))"
    unfolding run_logged
    by (cases "run e'") (auto simp: map_sum_def split: sum.splits)
  finally show "sessionFrom s f = map_option (map_sum id ((@) (trace s))) (session options f)"
    using e by (simp add: session_def sessionFrom_def resume_def e_def)
qed

theorem read_resets_session_witness:
  "execs [Read (Some (''x'' @ [LF])), Load, Ack, Load] (engine (Some 2)) = Inr finished \<and>
   loading finished = None \<and> canRead finished \<and> nextFn finished = None \<and>
   events finished = events (engine (Some 2)) \<and>
   chunkSize finished = chunkSize (engine (Some 2)) \<and>
   read (Some ''ab'') finished =
     Inr (finished\<lparr>file' := Some ''ab'', fileLength := 2, readPos := 2, chunk := [],
            lines := Some [], loading := Some ''ab''\<rparr>) \<and>
   sessionFrom finished ''ab'' = Some (Inr [Line ''x'', End, Line ''ab'', End])"
proof -
  have "execs [Read (Some (''x'' @ [LF])), Load, Ack, Load] (engine (Some 2)) = Inr finished"
    by code_simp
  moreover have "session (Some 2) ''ab'' = Some (Inr [Line ''ab'', End])"
    by code_simp
  ultimately show ?thesis
    using read_resets_session [of finished "''ab''" "Some 2"]
    by (simp add: finished_def engine_fields engine_def on_def LineReader_def slice_def)
qed

end
